theory Spec2Isabelle
  imports Main "HOL-Library.Word" "HOL-Library.Multiset" "HOL-Library.Stream"
begin

unbundle bit_operations_syntax

section \<open>Cards (include/Deck.hpp, src/Deck.cpp)\<close>

text \<open>\<^verbatim>\<open>enum class Suit { Club = 0, Diamond, Heart, Spade }\<close> and the initializer list
  \<^verbatim>\<open>Suits\<close> that the constructor of the deck iterates over.\<close>

datatype Suit = Club | Diamond | Heart | Spade

definition Suits :: "Suit list" where
  "Suits = [Club, Diamond, Heart, Spade]"

text \<open>\<^verbatim>\<open>enum class Value { Ace = 1, Two, ..., King }\<close> and the initializer list
  \<^verbatim>\<open>Values\<close>.\<close>

datatype Value = Ace | Two | Three | Four | Five | Six | Seven | Eight | Nine | Ten
  | Jack | Queen | King

definition Values :: "Value list" where
  "Values = [Ace, Two, Three, Four, Five, Six, Seven, Eight, Nine, Ten, Jack, Queen, King]"

text \<open>\<^verbatim>\<open>static_cast<int>\<close> on the two enumerations: the enumerators' numbers.\<close>

fun Suit_int :: "Suit \<Rightarrow> int" where
  "Suit_int Club = 0"
| "Suit_int Diamond = 1"
| "Suit_int Heart = 2"
| "Suit_int Spade = 3"

fun Value_int :: "Value \<Rightarrow> int" where
  "Value_int Ace = 1"
| "Value_int Two = 2"
| "Value_int Three = 3"
| "Value_int Four = 4"
| "Value_int Five = 5"
| "Value_int Six = 6"
| "Value_int Seven = 7"
| "Value_int Eight = 8"
| "Value_int Nine = 9"
| "Value_int Ten = 10"
| "Value_int Jack = 11"
| "Value_int Queen = 12"
| "Value_int King = 13"

text \<open>\<^verbatim>\<open>class Card\<close>: two private fields, set by the only constructor. The class has no
  default, copy or move constructor, no assignment and no member that writes a field.\<close>

record Card =
  m_suit :: Suit
  m_value :: Value

text \<open>\<^verbatim>\<open>Card::Card(Suit suit, Value value) : m_suit(suit), m_value(value) {}\<close>\<close>

definition new_Card :: "Suit \<Rightarrow> Value \<Rightarrow> Card" where
  "new_Card suit value = \<lparr>m_suit = suit, m_value = value\<rparr>"

text \<open>The accessors \<^verbatim>\<open>Card::suit()\<close> and \<^verbatim>\<open>Card::value()\<close>.\<close>

definition Card_suit :: "Card \<Rightarrow> Suit" where
  "Card_suit c = m_suit c"

definition Card_value :: "Card \<Rightarrow> Value" where
  "Card_value c = m_value c"

text \<open>\<^verbatim>\<open>Card::operator==\<close>:
  \<^verbatim>\<open>return m_suit == other.m_suit && m_value == other.m_value;\<close>\<close>

definition Card_eq :: "Card \<Rightarrow> Card \<Rightarrow> bool" where
  "Card_eq c other = (m_suit c = m_suit other \<and> m_value c = m_value other)"

text \<open>A \<^verbatim>\<open>std::shared_ptr<Card>\<close>: \<open>None\<close> is the null pointer, \<open>Some c\<close> a handle
  on the card \<open>c\<close>. Cards are never written after construction, so a handle is modelled
  by the card it points to.\<close>

type_synonym Card_ptr = "Card option"

text \<open>What the C++ leaves undefined is an error value of the model.\<close>

datatype error = Modulo_By_Zero | Out_Of_Bounds | Null_Dereference

text \<open>\<^verbatim>\<open>CardEqual::operator()\<close>: \<^verbatim>\<open>return *lhs == *rhs;\<close>. Both handles are
  dereferenced.\<close>

fun CardEqual :: "Card_ptr \<Rightarrow> Card_ptr \<Rightarrow> error + bool" where
  "CardEqual (Some l) (Some r) = Inr (Card_eq l r)"
| "CardEqual _ _ = Inl Null_Dereference"

text \<open>\<^verbatim>\<open>CardHash::operator()\<close>:
  \<^verbatim>\<open>return std::hash<int>()(static_cast<int>(card->suit())) ^
         std::hash<int>()(static_cast<int>(card->value()));\<close>
  \<^verbatim>\<open>std::hash<int>\<close> belongs to the standard library, which only promises that it is a
  function of its argument; it is the parameter \<open>hash_int\<close>. \<^verbatim>\<open>std::size_t\<close> is taken
  to be 64 bits wide.\<close>

fun CardHash :: "(int \<Rightarrow> 64 word) \<Rightarrow> Card_ptr \<Rightarrow> error + 64 word" where
  "CardHash hash_int (Some c) =
     Inr (hash_int (Suit_int (Card_suit c)) XOR hash_int (Value_int (Card_value c)))"
| "CardHash hash_int None = Inl Null_Dereference"

section \<open>The deck\<close>

text \<open>\<^verbatim>\<open>class Deck\<close>: the live vector and the vector kept for \<^verbatim>\<open>reset\<close>. A deck cannot
  be copied, moved or assigned.\<close>

record Deck =
  m_cards :: "Card_ptr list"
  m_original_cards :: "Card_ptr list"

text \<open>\<^verbatim>\<open>Deck::Deck()\<close>: the outer range-for over the suits and the inner one over the
  values push one freshly made card per suit and value on the back of \<^verbatim>\<open>m_cards\<close>, then
  \<^verbatim>\<open>m_original_cards = m_cards\<close>.
  \<^verbatim>\<open>std::make_shared\<close> never returns null. The call \<^verbatim>\<open>srand(time(NULL))\<close> only seeds the
  generator behind \<^verbatim>\<open>rand()\<close>, whose later results are a parameter of \<open>shuffle\<close>.\<close>

definition new_Deck :: Deck where
  "new_Deck =
     (let cards =
        foldl (\<lambda>cards suit.
                 foldl (\<lambda>cards value. cards @ [Some (new_Card suit value)]) cards Values)
              [] Suits
      in \<lparr>m_cards = cards, m_original_cards = cards\<rparr>)"

text \<open>\<^verbatim>\<open>Deck::num_cards()\<close>: \<^verbatim>\<open>return m_cards.size();\<close>, an unsigned \<^verbatim>\<open>std::size_t\<close>.\<close>

definition num_cards :: "Deck \<Rightarrow> nat" where
  "num_cards d = length (m_cards d)"

text \<open>\<^verbatim>\<open>Deck::reset()\<close>: \<^verbatim>\<open>m_cards = m_original_cards;\<close>, a copy of the vector.\<close>

definition reset :: "Deck \<Rightarrow> Deck" where
  "reset d = d\<lparr>m_cards := m_original_cards d\<rparr>"

text \<open>\<^verbatim>\<open>Deck::deal_card()\<close>: the back of the live vector is popped and returned; on an
  empty vector the null pointer is returned and nothing is written.\<close>

definition deal_card :: "Deck \<Rightarrow> Card_ptr \<times> Deck" where
  "deal_card d =
     (if length (m_cards d) > 0
      then (let card = last (m_cards d) in (card, d\<lparr>m_cards := butlast (m_cards d)\<rparr>))
      else (None, d))"

text \<open>\<^verbatim>\<open>std::iter_swap(m_cards.begin() + a, m_cards.begin() + b)\<close>: the two elements
  change places. Both positions must be inside the vector; \<open>shuffle_loop\<close> checks that
  before it calls this.\<close>

definition iter_swap :: "'a list \<Rightarrow> nat \<Rightarrow> nat \<Rightarrow> 'a list" where
  "iter_swap xs a b = xs[a := xs ! b, b := xs ! a]"

text \<open>\<^verbatim>\<open>int j = rand() % (i + 1);\<close> for the result \<open>r\<close> of \<^verbatim>\<open>rand()\<close>, an \<^verbatim>\<open>int\<close>.
  The other operand is a \<^verbatim>\<open>size_t\<close>, so \<open>r\<close> is converted to \<^verbatim>\<open>size_t\<close> (64 bits), the
  remainder is unsigned, and the initialisation of \<^verbatim>\<open>j\<close> narrows it to a 32-bit
  \<^verbatim>\<open>int\<close>. The divisor must not be zero; \<open>shuffle_loop\<close> checks that first.\<close>

definition random_index :: "int \<Rightarrow> 64 word \<Rightarrow> int" where
  "random_index r i = sint (ucast ((word_of_int r :: 64 word) mod (i + 1)) :: 32 word)"

text \<open>The loop of \<^verbatim>\<open>Deck::shuffle()\<close>:
  \<^verbatim>\<open>for (size_t i = m_cards.size() - 1; i > 0; --i) {
    int j = rand() % (i + 1);
    std::iter_swap(m_cards.begin() + i, m_cards.begin() + j); }\<close>
  The counter is an unsigned 64-bit \<^verbatim>\<open>size_t\<close>. \<open>rnd\<close> is the sequence of results
  that the coming calls of \<^verbatim>\<open>rand()\<close> give; each iteration takes its head. A remainder
  by zero and an iterator outside the vector are undefined in C++ and errors here.\<close>

function shuffle_loop ::
  "64 word \<Rightarrow> Card_ptr list \<Rightarrow> int stream \<Rightarrow> error + (Card_ptr list \<times> int stream)" where
  "shuffle_loop i cards rnd =
     (if i > 0
      then (if i + 1 = 0 then Inl Modulo_By_Zero
            else (let j = random_index (shd rnd) i
                  in if unat i < length cards \<and> 0 \<le> j \<and> nat j < length cards
                     then shuffle_loop (i - 1) (iter_swap cards (unat i) (nat j)) (stl rnd)
                     else Inl Out_Of_Bounds))
      else Inr (cards, rnd))"
  by pat_completeness auto
termination
  by (relation "measure (\<lambda>(i, cards, rnd). unat i)")
    (auto simp: unat_minus_one word_gt_0 unat_gt_0)

declare shuffle_loop.simps [simp del]

text \<open>\<^verbatim>\<open>Deck::shuffle()\<close>: the loop starts at \<^verbatim>\<open>m_cards.size() - 1\<close>, computed in
  \<^verbatim>\<open>size_t\<close>, where \<open>0 - 1\<close> wraps around to \<open>2^64 - 1\<close>.\<close>

definition shuffle :: "Deck \<Rightarrow> int stream \<Rightarrow> error + (Deck \<times> int stream)" where
  "shuffle d rnd =
     (case shuffle_loop (of_nat (length (m_cards d)) - 1) (m_cards d) rnd of
        Inl e \<Rightarrow> Inl e
      | Inr (cards, rnd') \<Rightarrow> Inr (d\<lparr>m_cards := cards\<rparr>, rnd'))"

section \<open>Sequences of calls\<close>

text \<open>\<open>n\<close> calls of \<^verbatim>\<open>deal_card()\<close> in a row, as the tests make them; the
  handles returned, first call first, and the deck left.\<close>

fun deal_n :: "nat \<Rightarrow> Deck \<Rightarrow> Card_ptr list \<times> Deck" where
  "deal_n 0 d = ([], d)"
| "deal_n (Suc n) d =
     (case deal_card d of (c, d') \<Rightarrow> (case deal_n n d' of (cs, d'') \<Rightarrow> (c # cs, d'')))"

text \<open>A caller's use of one deck: any sequence of the three mutating member functions.
  The state is the deck and the results \<^verbatim>\<open>rand()\<close> has yet to give. A call whose behaviour is
  undefined ends the run with its error.\<close>

datatype Deck_op = Shuffle | Deal_Card | Reset

fun exec_op :: "Deck_op \<Rightarrow> Deck \<times> int stream \<Rightarrow> error + (Deck \<times> int stream)" where
  "exec_op Shuffle (d, rnd) = shuffle d rnd"
| "exec_op Deal_Card (d, rnd) = Inr (snd (deal_card d), rnd)"
| "exec_op Reset (d, rnd) = Inr (reset d, rnd)"

fun run :: "Deck_op list \<Rightarrow> Deck \<times> int stream \<Rightarrow> error + (Deck \<times> int stream)" where
  "run [] s = Inr s"
| "run (c # cs) s = (case exec_op c s of Inl e \<Rightarrow> Inl e | Inr s' \<Rightarrow> run cs s')"

section \<open>What the specification says, in its own words\<close>

text \<open>The construction order of the specification: the cross product of the suits and
  the ranks, suits in the outer loop and ranks in the inner one.\<close>

definition construction_order :: "Card_ptr list" where
  "construction_order = map (\<lambda>(suit, value). Some (new_Card suit value)) (List.product Suits Values)"

text \<open>The Fisher-Yates shuffle of the specification: for the index \<open>i\<close> from the last one
  down to 1, draw \<open>j\<close> in \<open>[0, i]\<close> and swap the elements at \<open>i\<close> and \<open>j\<close>. The draw is the
  next random number modulo \<open>i + 1\<close>. The first argument is the index to start from.\<close>

fun fisher_yates :: "nat \<Rightarrow> 'a list \<Rightarrow> int stream \<Rightarrow> 'a list" where
  "fisher_yates 0 xs rnd = xs"
| "fisher_yates (Suc k) xs rnd =
     (let i = Suc k; j = nat (shd rnd) mod (i + 1)
      in fisher_yates k (xs[i := xs ! j, j := xs ! i]) (stl rnd))"

text \<open>How many of the results \<open>0, \<dots>, rand_max\<close> of \<^verbatim>\<open>rand()\<close> make the loop draw the
  index \<open>j\<close> when its counter is \<open>i\<close>. With every result of \<^verbatim>\<open>rand()\<close> equally likely, the
  draw is uniform exactly when this number is the same for every \<open>j\<close> in \<open>[0, i]\<close>.
  \<^verbatim>\<open>RAND_MAX\<close> belongs to the C library and is the parameter \<open>rand_max\<close>.\<close>

definition draws_of :: "int \<Rightarrow> 64 word \<Rightarrow> int \<Rightarrow> nat" where
  "draws_of rand_max i j = card {r. 0 \<le> r \<and> r \<le> rand_max \<and> random_index r i = j}"

section \<open>The invariant of a deck in use\<close>

text \<open>What every deck satisfies from its construction on: the original vector is the
  construction order, and the live vector holds cards of it, each at most once.\<close>

definition deck_inv :: "Deck \<Rightarrow> bool" where
  "deck_inv d \<longleftrightarrow>
     m_original_cards d = construction_order \<and> distinct (m_cards d)
     \<and> set (m_cards d) \<subseteq> set construction_order"

section \<open>Construction\<close>

lemma Suits_all: "set Suits = UNIV"
proof -
  have "s \<in> set Suits" for s
    by (cases s) (simp_all add: Suits_def)
  then show ?thesis by blast
qed

lemma Values_all: "set Values = UNIV"
proof -
  have "v \<in> set Values" for v
    by (cases v) (simp_all add: Values_def)
  then show ?thesis by blast
qed

lemma distinct_Suits: "distinct Suits"
  by (simp add: Suits_def)

lemma distinct_Values: "distinct Values"
  by (simp add: Values_def)

lemma new_Card_inj: "new_Card s v = new_Card s' v' \<longleftrightarrow> s = s' \<and> v = v'"
  by (simp add: new_Card_def)

text \<open>The constructor's nested iteration builds the cross product.\<close>

lemma new_Deck_cards: "m_cards new_Deck = construction_order"
  by (simp add: new_Deck_def construction_order_def Suits_def Values_def Let_def)

lemma new_Deck_original: "m_original_cards new_Deck = construction_order"
  by (simp add: new_Deck_def construction_order_def Suits_def Values_def Let_def)

lemma length_construction_order: "length construction_order = 52"
  by (simp add: construction_order_def Suits_def Values_def)

lemma distinct_construction_order: "distinct construction_order"
  unfolding construction_order_def
  by (rule distinct_map [THEN iffD2])
    (auto simp: distinct_product distinct_Suits distinct_Values inj_on_def new_Card_inj)

lemma construction_order_covers: "Some (new_Card s v) \<in> set construction_order"
proof -
  have "(s, v) \<in> set (List.product Suits Values)"
    by (simp add: Suits_all Values_all)
  then have "(\<lambda>(suit, value). Some (new_Card suit value)) (s, v) \<in> set construction_order"
    unfolding construction_order_def set_map by (rule imageI)
  then show ?thesis by simp
qed

lemma construction_order_no_null: "None \<notin> set construction_order"
  by (auto simp: construction_order_def)

lemma count_construction_order: "count_list construction_order (Some (new_Card s v)) = 1"
  using distinct_construction_order construction_order_covers [of s v]
  by (simp add: distinct_count_atmost_1 count_mset [symmetric] del: count_mset)

text \<open>C1: a freshly constructed deck holds 52 cards; they are the cross product of the
  four suits and the thirteen values in the order of the nested iteration (suits outside,
  values Ace = 1 to King = 13 inside); no two are equal, none is null, every pair of a suit
  and a value occurs exactly once; and the original vector equals the live one.\<close>

theorem Deck_construction:
  "m_cards new_Deck = construction_order
   \<and> m_original_cards new_Deck = m_cards new_Deck
   \<and> num_cards new_Deck = 52
   \<and> distinct (m_cards new_Deck)
   \<and> None \<notin> set (m_cards new_Deck)
   \<and> (\<forall>suit value. count_list (m_cards new_Deck) (Some (new_Card suit value)) = 1)
   \<and> map Suit_int Suits = [0, 1, 2, 3]
   \<and> map Value_int Values = [1, 2, 3, 4, 5, 6, 7, 8, 9, 10, 11, 12, 13]"
  by (simp add: new_Deck_cards new_Deck_original num_cards_def length_construction_order
      distinct_construction_order construction_order_no_null count_construction_order
      Suits_def Values_def)

section \<open>Cards\<close>

text \<open>C9: a card constructed from a suit and a value returns that suit from \<^verbatim>\<open>suit()\<close>
  and that value from \<^verbatim>\<open>value()\<close>, and \<^verbatim>\<open>operator==\<close> holds of two cards exactly when
  their suits agree and their values agree, that is, exactly when they are the same pair.\<close>

theorem Card_accessors_equality:
  "Card_suit (new_Card suit value) = suit
   \<and> Card_value (new_Card suit value) = value
   \<and> (Card_eq a b \<longleftrightarrow> Card_suit a = Card_suit b \<and> Card_value a = Card_value b)
   \<and> (Card_eq a b \<longleftrightarrow> a = b)"
  by (auto simp: Card_suit_def Card_value_def Card_eq_def new_Card_def)

text \<open>C10: two non-null handles that \<^verbatim>\<open>CardEqual\<close> judges equal get the same hash from
  \<^verbatim>\<open>CardHash\<close>, whatever function \<^verbatim>\<open>std::hash<int>\<close> is.\<close>

theorem CardHash_respects_CardEqual:
  assumes "CardEqual lhs rhs = Inr True"
  shows "CardHash hash_int lhs = CardHash hash_int rhs \<and> (\<exists>h. CardHash hash_int lhs = Inr h)"
proof -
  from assms obtain l r where "lhs = Some l" "rhs = Some r" "Card_eq l r"
    by (cases lhs; cases rhs) auto
  then show ?thesis
    by (simp add: Card_eq_def Card_suit_def Card_value_def)
qed

theorem CardHash_respects_CardEqual_witness:
  "CardEqual (Some (new_Card Heart Queen)) (Some \<lparr>m_suit = Heart, m_value = Queen\<rparr>) = Inr True
   \<and> CardHash word_of_int (Some (new_Card Heart Queen)) = Inr 14
   \<and> CardHash word_of_int (Some \<lparr>m_suit = Heart, m_value = Queen\<rparr>) = Inr 14"
proof -
  have eq: "CardEqual (Some (new_Card Heart Queen)) (Some \<lparr>m_suit = Heart, m_value = Queen\<rparr>)
      = Inr True"
    by (simp add: Card_eq_def new_Card_def)
  have "CardHash word_of_int (Some (new_Card Heart Queen)) = Inr 14"
    by (simp add: Card_suit_def Card_value_def new_Card_def)
  with eq CardHash_respects_CardEqual [OF eq, of word_of_int] show ?thesis
    by simp
qed

section \<open>The arithmetic of the random index\<close>

lemma unat_succ_index: "(i :: 64 word) + 1 \<noteq> 0 \<Longrightarrow> unat (i + 1) = Suc (unat i)"
  using unatSuc [of i] by (simp add: add.commute)

lemma remainder_unat:
  "(i :: 64 word) + 1 \<noteq> 0 \<Longrightarrow> unat ((w :: 64 word) mod (i + 1)) = unat w mod Suc (unat i)"
  by (simp add: unat_mod unat_succ_index)

lemma narrow_small:
  assumes "unat (w :: 64 word) < 2 ^ 31"
  shows "sint (ucast w :: 32 word) = uint w"
proof -
  have "int (unat w) < int (2 ^ 31)"
    using assms by (simp only: of_nat_less_iff)
  then have hi: "uint w < 2 ^ 31"
    by simp
  have "- (2 ^ 31) \<le> (0 :: int)"
    by simp
  then have lo: "- (2 ^ 31) \<le> uint w"
    by (rule order_trans) (rule uint_nonnegative)
  have "signed_take_bit 31 (uint w) = uint w"
    using lo hi by (rule signed_take_bit_int_eq_self)
  then show ?thesis
    by (simp add: signed_ucast_eq)
qed

lemma unat_word_of_int_64:
  "0 \<le> r \<Longrightarrow> r < 2 ^ 64 \<Longrightarrow> unat (word_of_int r :: 64 word) = nat r"
  by (simp add: unat_eq_nat_uint uint_word_of_int)

lemma random_index_uint:
  assumes "i + 1 \<noteq> 0" and "unat i < 2 ^ 31"
  shows "random_index r i = uint ((word_of_int r :: 64 word) mod (i + 1))"
proof -
  let ?w = "(word_of_int r :: 64 word) mod (i + 1)"
  have "unat ?w < Suc (unat i)"
    using assms(1) by (simp add: remainder_unat)
  then have "unat ?w < 2 ^ 31"
    using assms(2) by simp
  then show ?thesis
    unfolding random_index_def by (rule narrow_small)
qed

lemma random_index_bounds:
  assumes "i + 1 \<noteq> 0" and "unat i < 2 ^ 31"
  shows "0 \<le> random_index r i" and "nat (random_index r i) \<le> unat i"
proof -
  show "0 \<le> random_index r i"
    using assms by (simp add: random_index_uint)
  have "unat ((word_of_int r :: 64 word) mod (i + 1)) < Suc (unat i)"
    using assms(1) by (simp add: remainder_unat)
  then show "nat (random_index r i) \<le> unat i"
    using assms by (simp add: random_index_uint)
qed

lemma random_index_mod:
  assumes "i + 1 \<noteq> 0" and "unat i < 2 ^ 31" and "0 \<le> r" and "r < 2 ^ 64"
  shows "nat (random_index r i) = nat r mod (unat i + 1)"
  using assms by (simp add: random_index_uint remainder_unat unat_word_of_int_64)

lemma small_index_succ: "unat (i :: 64 word) < 2 ^ 31 \<Longrightarrow> i + 1 \<noteq> 0"
proof
  assume small: "unat i < 2 ^ 31" and "i + 1 = 0"
  then have "i = - 1"
    by (simp add: eq_neg_iff_add_eq_0)
  then have "unat i = 18446744073709551615"
    by (simp add: unsigned_minus_1_eq_mask mask_eq_exp_minus_1)
  with small show False by simp
qed

section \<open>The shuffle loop\<close>

lemma length_iter_swap: "length (iter_swap xs a b) = length xs"
  by (simp add: iter_swap_def)

lemma mset_iter_swap:
  "a < length xs \<Longrightarrow> b < length xs \<Longrightarrow> mset (iter_swap xs a b) = mset xs"
  unfolding iter_swap_def by (rule mset_swap)

lemma fisher_yates_step:
  "fisher_yates (Suc k) xs rnd =
     fisher_yates k (iter_swap xs (Suc k) (nat (shd rnd) mod (Suc k + 1))) (stl rnd)"
  by (simp add: Let_def iter_swap_def)

text \<open>The loop's equation, one case at a time.\<close>

lemma shuffle_loop_stop: "\<not> 0 < i \<Longrightarrow> shuffle_loop i cards rnd = Inr (cards, rnd)"
  by (subst shuffle_loop.simps) simp

lemma shuffle_loop_step:
  assumes "0 < i" and "i + 1 \<noteq> 0" and "unat i < length cards"
    and "0 \<le> random_index (shd rnd) i" and "nat (random_index (shd rnd) i) < length cards"
  shows "shuffle_loop i cards rnd =
    shuffle_loop (i - 1) (iter_swap cards (unat i) (nat (random_index (shd rnd) i))) (stl rnd)"
  using assms by (subst shuffle_loop.simps) (simp add: Let_def)

lemma shuffle_loop_Inr_step:
  assumes "0 < i" and "shuffle_loop i cards rnd = Inr res"
  shows "i + 1 \<noteq> 0 \<and> unat i < length cards \<and> 0 \<le> random_index (shd rnd) i
    \<and> nat (random_index (shd rnd) i) < length cards"
  using assms by (subst (asm) shuffle_loop.simps) (auto simp: Let_def split: if_splits)

text \<open>Whenever the loop returns, it has only permuted the vector.\<close>

lemma shuffle_loop_mset:
  "shuffle_loop i cards rnd = Inr (cards', rnd') \<Longrightarrow> mset cards' = mset cards"
proof (induction i cards rnd rule: shuffle_loop.induct)
  case (1 i cards rnd)
  show ?case
  proof (cases "0 < i")
    case False
    with "1.prems" show ?thesis by (simp add: shuffle_loop_stop)
  next
    case True
    let ?j = "random_index (shd rnd) i"
    from True "1.prems"
    have ok: "i + 1 \<noteq> 0 \<and> unat i < length cards \<and> 0 \<le> ?j \<and> nat ?j < length cards"
      by (rule shuffle_loop_Inr_step)
    with True "1.prems"
    have "shuffle_loop (i - 1) (iter_swap cards (unat i) (nat ?j)) (stl rnd) = Inr (cards', rnd')"
      by (simp add: shuffle_loop_step)
    with "1.IH" [OF True _ refl] ok
    have "mset cards' = mset (iter_swap cards (unat i) (nat ?j))"
      by simp
    with ok show ?thesis
      by (simp add: mset_iter_swap)
  qed
qed

text \<open>Started inside a vector of at most \<open>2^31\<close> elements, the loop returns.\<close>

lemma shuffle_loop_total:
  assumes "unat i < length cards" and "length cards \<le> 2 ^ 31"
  shows "\<exists>cards' rnd'. shuffle_loop i cards rnd = Inr (cards', rnd')"
  using assms
proof (induction i cards rnd rule: shuffle_loop.induct)
  case (1 i cards rnd)
  show ?case
  proof (cases "0 < i")
    case False
    then show ?thesis by (simp add: shuffle_loop_stop)
  next
    case True
    let ?j = "random_index (shd rnd) i"
    from "1.prems" have small: "unat i < 2 ^ 31" by simp
    then have nz: "i + 1 \<noteq> 0" by (rule small_index_succ)
    have j: "0 \<le> ?j" "nat ?j \<le> unat i"
      using nz small by (rule random_index_bounds)+
    with "1.prems" have ok: "unat i < length cards \<and> 0 \<le> ?j \<and> nat ?j < length cards"
      by simp
    from True have "unat (i - 1) < unat i"
      by (simp add: unat_minus_one word_gt_0 unat_gt_0)
    with "1.prems" have "unat (i - 1) < length (iter_swap cards (unat i) (nat ?j))"
      by (simp add: length_iter_swap)
    with "1.IH" [OF True nz refl] ok "1.prems"(2)
    obtain cards' rnd' where
      "shuffle_loop (i - 1) (iter_swap cards (unat i) (nat ?j)) (stl rnd) = Inr (cards', rnd')"
      by (auto simp: length_iter_swap)
    with True nz ok show ?thesis
      by (simp add: shuffle_loop_step)
  qed
qed

text \<open>With the results of \<^verbatim>\<open>rand()\<close> in its range, the loop is the Fisher-Yates loop of the
  specification from its counter down to 1.\<close>

lemma shuffle_loop_returns:
  assumes "unat i < length cards" and "length cards \<le> 2 ^ 31"
    and "\<forall>k. 0 \<le> rnd !! k \<and> rnd !! k \<le> 2147483647"
  shows "shuffle_loop i cards rnd = Inr (fisher_yates (unat i) cards rnd, sdrop (unat i) rnd)"
  using assms
proof (induction i cards rnd rule: shuffle_loop.induct)
  case (1 i cards rnd)
  show ?case
  proof (cases "0 < i")
    case False
    then have "unat i = 0"
      by (simp add: word_gt_0 unat_eq_zero)
    with False show ?thesis by (simp add: shuffle_loop_stop)
  next
    case True
    let ?j = "random_index (shd rnd) i"
    from "1.prems" have small: "unat i < 2 ^ 31" by simp
    then have nz: "i + 1 \<noteq> 0" by (rule small_index_succ)
    from "1.prems"(3) have "0 \<le> rnd !! 0 \<and> rnd !! 0 \<le> 2147483647"
      by (rule spec)
    then have r: "0 \<le> shd rnd" "shd rnd < 2 ^ 64"
      by simp_all
    have j: "0 \<le> ?j" "nat ?j \<le> unat i"
      using nz small by (rule random_index_bounds)+
    have j_mod: "nat ?j = nat (shd rnd) mod (unat i + 1)"
      using nz small r by (rule random_index_mod)
    from j "1.prems" have ok: "unat i < length cards \<and> 0 \<le> ?j \<and> nat ?j < length cards"
      by simp
    from True have pred: "unat i = Suc (unat (i - 1))"
      by (simp add: unat_minus_one word_gt_0 unat_gt_0)
    have tl: "\<forall>k. 0 \<le> stl rnd !! k \<and> stl rnd !! k \<le> 2147483647"
    proof
      fix k
      from "1.prems"(3) have "0 \<le> rnd !! Suc k \<and> rnd !! Suc k \<le> 2147483647"
        by (rule spec)
      then show "0 \<le> stl rnd !! k \<and> stl rnd !! k \<le> 2147483647"
        by simp
    qed
    from pred "1.prems" have "unat (i - 1) < length (iter_swap cards (unat i) (nat ?j))"
      by (simp add: length_iter_swap)
    with "1.IH" [OF True nz refl] ok "1.prems"(2) tl
    have "shuffle_loop (i - 1) (iter_swap cards (unat i) (nat ?j)) (stl rnd) =
      Inr (fisher_yates (unat (i - 1)) (iter_swap cards (unat i) (nat ?j)) (stl rnd),
           sdrop (unat (i - 1)) (stl rnd))"
      by (simp add: length_iter_swap)
    moreover have "fisher_yates (unat i) cards rnd =
      fisher_yates (unat (i - 1)) (iter_swap cards (unat i) (nat ?j)) (stl rnd)"
      unfolding j_mod by (simp only: pred fisher_yates_step)
    moreover have "sdrop (unat i) rnd = sdrop (unat (i - 1)) (stl rnd)"
      by (simp only: pred sdrop.simps)
    ultimately show ?thesis
      using True nz ok by (simp add: shuffle_loop_step)
  qed
qed

lemma start_index:
  assumes "cards \<noteq> []" and "length cards \<le> 2 ^ 31"
  shows "unat (of_nat (length cards) - 1 :: 64 word) = length cards - 1"
proof -
  have "unat (of_nat (length cards) :: 64 word) = length cards"
    using assms(2) by (simp add: unat_of_nat)
  moreover have "(of_nat (length cards) :: 64 word) \<noteq> 0"
    using assms calculation by (metis length_0_conv unat_0)
  ultimately show ?thesis
    by (simp add: unat_minus_one)
qed

lemma shuffle_Inr:
  "shuffle d rnd = Inr (d', rnd') \<longleftrightarrow>
     (\<exists>cards'. shuffle_loop (of_nat (length (m_cards d)) - 1) (m_cards d) rnd = Inr (cards', rnd')
        \<and> d' = d\<lparr>m_cards := cards'\<rparr>)"
  by (auto simp: shuffle_def split: sum.splits)

lemma shuffle_mset:
  assumes "shuffle d rnd = Inr (d', rnd')"
  shows "mset (m_cards d') = mset (m_cards d)" and "m_original_cards d' = m_original_cards d"
  using assms by (auto simp: shuffle_Inr dest: shuffle_loop_mset)

lemma shuffle_total:
  assumes "m_cards d \<noteq> []" and "length (m_cards d) \<le> 2 ^ 31"
  shows "\<exists>d' rnd'. shuffle d rnd = Inr (d', rnd')"
proof -
  have "unat (of_nat (length (m_cards d)) - 1 :: 64 word) < length (m_cards d)"
    using assms by (simp add: start_index)
  then obtain cards' rnd' where
    "shuffle_loop (of_nat (length (m_cards d)) - 1) (m_cards d) rnd = Inr (cards', rnd')"
    using assms(2) shuffle_loop_total by blast
  then show ?thesis
    by (simp add: shuffle_def)
qed

lemma shuffle_fisher_yates:
  assumes "m_cards d \<noteq> []" and "length (m_cards d) \<le> 2 ^ 31"
    and "\<forall>k. 0 \<le> rnd !! k \<and> rnd !! k \<le> 2147483647"
  shows "shuffle d rnd =
    Inr (d\<lparr>m_cards := fisher_yates (length (m_cards d) - 1) (m_cards d) rnd\<rparr>,
         sdrop (length (m_cards d) - 1) rnd)"
proof -
  have idx: "unat (of_nat (length (m_cards d)) - 1 :: 64 word) = length (m_cards d) - 1"
    using assms(1,2) by (rule start_index)
  then have "unat (of_nat (length (m_cards d)) - 1 :: 64 word) < length (m_cards d)"
    using assms(1) by simp
  then show ?thesis
    using assms(2,3) by (simp add: shuffle_def shuffle_loop_returns idx)
qed

lemma shuffle_empty: "m_cards d = [] \<Longrightarrow> shuffle d rnd = Inl Modulo_By_Zero"
  by (simp add: shuffle_def shuffle_loop.simps [of "- 1"] word_gt_0)

section \<open>How often each index is drawn\<close>

lemma card_residues:
  fixes n j M :: int
  assumes "0 < n" and "0 \<le> j" and "j < n" and "j \<le> M"
  shows "card {r. 0 \<le> r \<and> r \<le> M \<and> r mod n = j} = nat ((M - j) div n + 1)"
proof -
  let ?K = "(M - j) div n"
  have K: "0 \<le> ?K"
    using assms by (simp add: pos_imp_zdiv_nonneg_iff)
  have "{r. 0 \<le> r \<and> r \<le> M \<and> r mod n = j} = (\<lambda>q. q * n + j) ` {0..?K}"
  proof (intro set_eqI iffI)
    fix r
    assume "r \<in> {r. 0 \<le> r \<and> r \<le> M \<and> r mod n = j}"
    then have r: "0 \<le> r" "r \<le> M" "r mod n = j"
      by simp_all
    have decomp: "r = (r div n) * n + j"
      using r(3) by (metis div_mult_mod_eq)
    have "0 \<le> r div n"
      using r(1) assms(1) by (simp add: pos_imp_zdiv_nonneg_iff)
    moreover have "r div n \<le> ?K"
    proof -
      have "(r div n) * n \<le> M - j"
        using decomp r(2) by linarith
      then have "((r div n) * n) div n \<le> (M - j) div n"
        using assms(1) by (intro zdiv_mono1) simp_all
      then show ?thesis
        using assms(1) by simp
    qed
    ultimately show "r \<in> (\<lambda>q. q * n + j) ` {0..?K}"
      using decomp by (intro image_eqI [of _ _ "r div n"]) simp_all
  next
    fix r
    assume "r \<in> (\<lambda>q. q * n + j) ` {0..?K}"
    then obtain q where q: "0 \<le> q" "q \<le> ?K" "r = q * n + j"
      by auto
    have "q * n \<le> ?K * n"
      using q(2) assms(1) by (simp add: mult_right_mono)
    moreover have "?K * n + (M - j) mod n = M - j"
      by (rule div_mult_mod_eq)
    moreover have "0 \<le> (M - j) mod n"
      using assms(1) by simp
    ultimately have "r \<le> M"
      using q(3) by linarith
    moreover have "0 \<le> r"
      using q(1,3) assms(1,2) by simp
    moreover have "r mod n = j"
      using q(3) assms(2,3) by simp
    ultimately show "r \<in> {r. 0 \<le> r \<and> r \<le> M \<and> r mod n = j}"
      by simp
  qed
  moreover have "inj_on (\<lambda>q. q * n + j) {0..?K}"
    using assms(1) by (auto simp: inj_on_def)
  ultimately have "card {r. 0 \<le> r \<and> r \<le> M \<and> r mod n = j} = card {0..?K}"
    by (simp add: card_image)
  then show ?thesis
    by simp
qed

lemma random_index_int_mod:
  assumes "unat i < 2 ^ 31" and "0 \<le> r" and "r < 2 ^ 64"
  shows "random_index r i = r mod (int (unat i) + 1)"
proof -
  have nz: "i + 1 \<noteq> 0"
    using assms(1) by (rule small_index_succ)
  have "0 \<le> random_index r i"
    using nz assms(1) by (rule random_index_bounds)
  moreover have "nat (random_index r i) = nat r mod (unat i + 1)"
    using nz assms by (rule random_index_mod)
  ultimately have "random_index r i = int (nat r mod (unat i + 1))"
    by linarith
  also have "\<dots> = r mod (int (unat i) + 1)"
    using assms(2) by (simp add: zmod_int add.commute)
  finally show ?thesis .
qed

lemma draws_of_count:
  assumes "unat i < 2 ^ 31" and "0 \<le> j" and "j \<le> int (unat i)" and "j \<le> rand_max"
    and "rand_max < 2 ^ 64"
  shows "draws_of rand_max i j = nat ((rand_max - j) div (int (unat i) + 1) + 1)"
proof -
  have "{r. 0 \<le> r \<and> r \<le> rand_max \<and> random_index r i = j} =
    {r. 0 \<le> r \<and> r \<le> rand_max \<and> r mod (int (unat i) + 1) = j}"
    using assms(1,5) by (auto simp: random_index_int_mod)
  then show ?thesis
    unfolding draws_of_def using assms(2,3,4) by (simp add: card_residues)
qed

lemma residue_count_uniform_iff:
  fixes n M :: int
  assumes "1 < n" and "n - 1 \<le> M"
  shows "(\<forall>j. 0 \<le> j \<and> j < n \<longrightarrow> (M - j) div n = M div n) \<longleftrightarrow> n dvd M + 1"
proof
  assume "\<forall>j. 0 \<le> j \<and> j < n \<longrightarrow> (M - j) div n = M div n"
  then have eq: "(M - (n - 1)) div n = M div n"
    using assms(1) by simp
  have "M + 1 = M - (n - 1) + n"
    by simp
  then have "(M + 1) div n = (M - (n - 1) + n) div n"
    by (rule arg_cong)
  also have "\<dots> = (M - (n - 1)) div n + 1"
    using assms(1) by (intro div_add_self2) simp
  finally have succ: "(M + 1) div n = M div n + 1"
    using eq by simp
  define a b c where "a = M div n" and "b = M mod n" and "c = (M + 1) mod n"
  have "(M + 1) div n * n + (M + 1) mod n = M + 1"
    by (rule div_mult_mod_eq)
  then have "(a + 1) * n + c = M + 1"
    by (simp only: succ a_def c_def)
  moreover have "a * n + b = M"
    unfolding a_def b_def by (rule div_mult_mod_eq)
  ultimately have "c = b + 1 - n"
    by (simp add: algebra_simps)
  moreover have "b < n" and "0 \<le> c"
    using assms(1) by (simp_all add: b_def c_def)
  ultimately have "c = 0"
    by linarith
  then have "(M + 1) mod n = 0"
    by (simp only: c_def)
  then show "n dvd M + 1"
    by (simp add: dvd_eq_mod_eq_0)
next
  assume "n dvd M + 1"
  then obtain q where q: "M + 1 = n * q"
    by (rule dvdE)
  have "(M - j) div n = q - 1" if "0 \<le> j" and "j < n" for j
  proof -
    have "M - j = (q - 1) * n + (n - 1 - j)"
      using q by (simp add: algebra_simps)
    then have "(M - j) div n = ((q - 1) * n + (n - 1 - j)) div n"
      by (rule arg_cong)
    also have "\<dots> = q - 1 + (n - 1 - j) div n"
      using assms(1) by (subst div_mult_self3) simp_all
    also have "(n - 1 - j) div n = 0"
      using that by (intro div_pos_pos_trivial) simp_all
    finally show ?thesis
      by simp
  qed
  from this [of 0] this show "\<forall>j. 0 \<le> j \<and> j < n \<longrightarrow> (M - j) div n = M div n"
    using assms(1) by simp
qed

text \<open>When the draw is uniform: with every result \<open>0, \<dots>, RAND_MAX\<close> of \<^verbatim>\<open>rand()\<close>
  equally likely, every index of \<open>[0, i]\<close> is drawn as often as the index 0 exactly when
  \<open>i + 1\<close> divides \<open>RAND_MAX + 1\<close>.\<close>

theorem draw_uniform_iff_divides:
  fixes i :: nat
  assumes "0 < i" and "i < 2 ^ 31" and "int i \<le> rand_max" and "rand_max \<le> 2147483647"
  shows "(\<forall>j \<le> i. draws_of rand_max (of_nat i) (int j) = draws_of rand_max (of_nat i) 0)
    \<longleftrightarrow> (int i + 1) dvd (rand_max + 1)"
proof -
  let ?n = "int i + 1"
  from assms(2) have "i < 2 ^ 64"
    by (rule less_trans) simp
  then have idx: "unat (of_nat i :: 64 word) = i"
    by (simp add: unat_of_nat)
  have count: "draws_of rand_max (of_nat i) (int j) = nat ((rand_max - int j) div ?n + 1)"
    if "j \<le> i" for j
  proof -
    have "draws_of rand_max (of_nat i) (int j) =
        nat ((rand_max - int j) div (int (unat (of_nat i :: 64 word)) + 1) + 1)"
      using that assms by (intro draws_of_count) (simp_all only: idx, simp_all)
    then show ?thesis
      by (simp only: idx)
  qed
  have nonneg: "0 \<le> (rand_max - int j) div ?n" if "j \<le> i" for j
    using that assms(3) by (simp add: pos_imp_zdiv_nonneg_iff)
  have same: "draws_of rand_max (of_nat i) (int j) = draws_of rand_max (of_nat i) 0
      \<longleftrightarrow> (rand_max - int j) div ?n = rand_max div ?n" if "j \<le> i" for j
  proof -
    have "nat ((rand_max - int j) div ?n + 1) = nat (rand_max div ?n + 1)
        \<longleftrightarrow> (rand_max - int j) div ?n = rand_max div ?n"
      using nonneg [OF that] nonneg [of 0] by auto
    with count [OF that] count [of 0] show ?thesis
      by simp
  qed
  have "(\<forall>j \<le> i. draws_of rand_max (of_nat i) (int j) = draws_of rand_max (of_nat i) 0)
      \<longleftrightarrow> (\<forall>j \<le> i. (rand_max - int j) div ?n = rand_max div ?n)"
    using same by blast
  also have "\<dots> \<longleftrightarrow> (\<forall>j. 0 \<le> j \<and> j < ?n \<longrightarrow> (rand_max - j) div ?n = rand_max div ?n)"
  proof (intro iffI allI impI)
    fix j :: int
    assume all: "\<forall>j \<le> i. (rand_max - int j) div ?n = rand_max div ?n" and j: "0 \<le> j \<and> j < ?n"
    from j have "nat j \<le> i"
      by linarith
    with all have "(rand_max - int (nat j)) div ?n = rand_max div ?n"
      by blast
    with j show "(rand_max - j) div ?n = rand_max div ?n"
      by simp
  next
    fix j :: nat
    assume "\<forall>j. 0 \<le> j \<and> j < ?n \<longrightarrow> (rand_max - j) div ?n = rand_max div ?n" and "j \<le> i"
    then show "(rand_max - int j) div ?n = rand_max div ?n"
      by simp
  qed
  also have "\<dots> \<longleftrightarrow> ?n dvd rand_max + 1"
    using assms(1,3) by (intro residue_count_uniform_iff) simp_all
  finally show ?thesis .
qed

theorem draw_uniform_iff_divides_witness:
  "(0 :: nat) < 2 \<and> (2 :: nat) < 2 ^ 31 \<and> int 2 \<le> 2147483647
   \<and> \<not> (int 2 + 1) dvd (2147483647 + 1)
   \<and> \<not> (\<forall>j \<le> 2. draws_of 2147483647 (of_nat 2) (int j) = draws_of 2147483647 (of_nat 2) 0)
   \<and> (int 1 + 1) dvd (2147483647 + 1)
   \<and> draws_of 2147483647 (of_nat 1) (int 1) = draws_of 2147483647 (of_nat 1) 0"
proof -
  have nd: "\<not> (int 2 + 1) dvd (2147483647 + 1)"
    by simp
  have d: "(int 1 + 1) dvd (2147483647 + 1)"
    by simp
  have "\<not> (\<forall>j \<le> 2. draws_of 2147483647 (of_nat 2) (int j) = draws_of 2147483647 (of_nat 2) 0)"
    using draw_uniform_iff_divides [of 2 2147483647] nd by simp
  moreover have "\<forall>j \<le> 1. draws_of 2147483647 (of_nat 1) (int j) = draws_of 2147483647 (of_nat 1) 0"
    using draw_uniform_iff_divides [of 1 2147483647] d by simp
  then have "draws_of 2147483647 (of_nat 1) (int 1) = draws_of 2147483647 (of_nat 1) 0"
    by blast
  ultimately show ?thesis
    using nd d by simp
qed

section \<open>Dealing, and the invariant\<close>

lemma deal_card_empty: "m_cards d = [] \<Longrightarrow> deal_card d = (None, d)"
  by (simp add: deal_card_def)

lemma deal_card_back:
  "m_cards d = cards @ [c] \<Longrightarrow> deal_card d = (c, d\<lparr>m_cards := cards\<rparr>)"
  by (simp add: deal_card_def)

lemma deal_card_original: "m_original_cards (snd (deal_card d)) = m_original_cards d"
  by (simp add: deal_card_def)

lemma deal_card_cards: "m_cards (snd (deal_card d)) = butlast (m_cards d)"
  by (simp add: deal_card_def)

lemma deal_card_result: "fst (deal_card d) = (if m_cards d = [] then None else last (m_cards d))"
  by (simp add: deal_card_def)

lemma snd_deal_n_Suc: "snd (deal_n (Suc n) d) = snd (deal_n n (snd (deal_card d)))"
  by (simp split: prod.splits)

lemma fst_deal_n_Suc:
  "fst (deal_n (Suc n) d) = fst (deal_card d) # fst (deal_n n (snd (deal_card d)))"
  by (simp split: prod.splits)

lemma deal_n_cards:
  "m_cards (snd (deal_n n d)) = take (length (m_cards d) - n) (m_cards d)"
proof (induction n arbitrary: d)
  case 0
  show ?case by simp
next
  case (Suc n)
  show ?case
    unfolding snd_deal_n_Suc Suc.IH deal_card_cards
    by (simp add: butlast_conv_take min_def)
qed

lemma deal_n_original: "m_original_cards (snd (deal_n n d)) = m_original_cards d"
proof (induction n arbitrary: d)
  case 0
  show ?case by simp
next
  case (Suc n)
  show ?case
    unfolding snd_deal_n_Suc Suc.IH deal_card_original ..
qed

lemma deal_n_dealt:
  "n \<le> length (m_cards d) \<Longrightarrow> fst (deal_n n d) = take n (rev (m_cards d))"
proof (induction n arbitrary: d)
  case 0
  show ?case by simp
next
  case (Suc n)
  then obtain cards c where split: "m_cards d = cards @ [c]"
    by (cases "m_cards d" rule: rev_cases) auto
  with Suc.prems have "n \<le> length (m_cards (snd (deal_card d)))"
    by (simp add: deal_card_cards)
  then have "fst (deal_n n (snd (deal_card d))) = take n (rev cards)"
    using split by (simp add: Suc.IH deal_card_cards)
  then show ?case
    unfolding fst_deal_n_Suc using split by (simp add: deal_card_result)
qed

lemma deal_n_all:
  "fst (deal_n (length (m_cards d)) d) = rev (m_cards d)"
  "m_cards (snd (deal_n (length (m_cards d)) d)) = []"
  by (simp_all add: deal_n_dealt deal_n_cards)

lemma run_deals: "run (replicate n Deal_Card) (d, rnd) = Inr (snd (deal_n n d), rnd)"
proof (induction n arbitrary: d)
  case 0
  show ?case by simp
next
  case (Suc n)
  show ?case
    unfolding snd_deal_n_Suc by (simp add: Suc.IH)
qed

lemma run_append:
  "run (cs @ cs') s = (case run cs s of Inl e \<Rightarrow> Inl e | Inr s' \<Rightarrow> run cs' s')"
  by (induction cs arbitrary: s) (auto split: sum.splits)

lemma deck_inv_new: "deck_inv new_Deck"
  by (simp add: deck_inv_def new_Deck_cards new_Deck_original distinct_construction_order)

lemma deck_inv_reset: "deck_inv d \<Longrightarrow> deck_inv (reset d)"
  by (simp add: deck_inv_def reset_def distinct_construction_order)

lemma deck_inv_deal: "deck_inv d \<Longrightarrow> deck_inv (snd (deal_card d))"
  by (auto simp: deck_inv_def deal_card_original deal_card_cards distinct_butlast
      dest: in_set_butlastD)

lemma deck_inv_shuffle:
  assumes "deck_inv d" and "shuffle d rnd = Inr (d', rnd')"
  shows "deck_inv d'"
proof -
  from assms(2) have perm: "mset (m_cards d') = mset (m_cards d)"
    and orig: "m_original_cards d' = m_original_cards d"
    by (rule shuffle_mset)+
  from perm have "set (m_cards d') = set (m_cards d)"
    by (rule mset_eq_setD)
  moreover from perm have "distinct (m_cards d') \<longleftrightarrow> distinct (m_cards d)"
    by (rule mset_eq_imp_distinct_iff)
  ultimately show ?thesis
    using assms(1) orig by (simp add: deck_inv_def)
qed

lemma deck_inv_exec_op:
  assumes "deck_inv d" and "exec_op c (d, rnd) = Inr (d', rnd')"
  shows "deck_inv d'"
  using assms by (cases c) (auto simp: deck_inv_reset deck_inv_deal deck_inv_shuffle)

lemma deck_inv_run:
  assumes "deck_inv d" and "run cs (d, rnd) = Inr (d', rnd')"
  shows "deck_inv d'"
  using assms
proof (induction cs arbitrary: d rnd)
  case Nil
  then show ?case by simp
next
  case (Cons c cs)
  from Cons.prems(2) obtain d1 rnd1 where
    step: "exec_op c (d, rnd) = Inr (d1, rnd1)" and rest: "run cs (d1, rnd1) = Inr (d', rnd')"
    by (auto split: sum.splits)
  from Cons.prems(1) step have "deck_inv d1"
    by (rule deck_inv_exec_op)
  then show ?case
    using rest by (rule Cons.IH)
qed

lemma deck_inv_size: "deck_inv d \<Longrightarrow> length (m_cards d) \<le> 52"
proof -
  assume inv: "deck_inv d"
  then have "length (m_cards d) = card (set (m_cards d))"
    by (simp add: deck_inv_def distinct_card)
  also have "\<dots> \<le> card (set construction_order)"
    using inv by (simp add: deck_inv_def card_mono)
  also have "\<dots> = 52"
    using distinct_construction_order by (simp add: distinct_card length_construction_order)
  finally show ?thesis .
qed

lemma deck_inv_no_null: "deck_inv d \<Longrightarrow> None \<notin> set (m_cards d)"
  using construction_order_no_null by (auto simp: deck_inv_def)

lemma deal_n_deck:
  "snd (deal_n n d) = d\<lparr>m_cards := take (length (m_cards d) - n) (m_cards d)\<rparr>"
proof (induction n arbitrary: d)
  case 0
  show ?case by simp
next
  case (Suc n)
  show ?case
    unfolding snd_deal_n_Suc Suc.IH
    by (simp add: deal_card_def butlast_conv_take min_def)
qed

lemma two_left:
  "snd (deal_n 50 new_Deck) =
     \<lparr>m_cards = [Some (new_Card Club Ace), Some (new_Card Club Two)],
      m_original_cards = construction_order\<rparr>"
  unfolding deal_n_deck
  by (simp add: new_Deck_def Let_def Suits_def Values_def construction_order_def)

lemma shuffle_two_left:
  "shuffle \<lparr>m_cards = [Some (new_Card Club Ace), Some (new_Card Club Two)],
            m_original_cards = construction_order\<rparr> (sconst 4) =
     Inr (\<lparr>m_cards = [Some (new_Card Club Two), Some (new_Card Club Ace)],
           m_original_cards = construction_order\<rparr>, sconst 4)"
  by (simp add: shuffle_def shuffle_loop.simps random_index_def iter_swap_def)

lemma run_example:
  "run (replicate 50 Deal_Card @ [Shuffle, Deal_Card]) (new_Deck, sconst 4) =
     Inr (\<lparr>m_cards = [Some (new_Card Club Two)], m_original_cards = construction_order\<rparr>,
          sconst 4)"
  by (simp add: run_append run_deals two_left shuffle_two_left deal_card_def)

section \<open>The claims about dealing and resetting\<close>

text \<open>C4: 52 calls of \<^verbatim>\<open>deal_card\<close> on a fresh deck return 52 handles, no two equal and
  none null (they are the construction order read backwards); the 53rd call returns null;
  after \<open>k\<close> calls \<^verbatim>\<open>num_cards\<close> is \<open>52 - k\<close>, which on the natural numbers stops at 0; and
  each of the first 52 calls returns a card and lowers \<^verbatim>\<open>num_cards\<close> by exactly 1.\<close>

theorem deal_fresh_deck:
  "fst (deal_n 52 new_Deck) = rev construction_order
   \<and> length (fst (deal_n 52 new_Deck)) = 52
   \<and> distinct (fst (deal_n 52 new_Deck))
   \<and> None \<notin> set (fst (deal_n 52 new_Deck))
   \<and> fst (deal_card (snd (deal_n 52 new_Deck))) = None
   \<and> (\<forall>k. num_cards (snd (deal_n k new_Deck)) = 52 - k)
   \<and> (\<forall>k < 52. fst (deal_card (snd (deal_n k new_Deck))) \<noteq> None
         \<and> num_cards (snd (deal_n (Suc k) new_Deck)) + 1 = num_cards (snd (deal_n k new_Deck)))"
proof -
  have dealt: "fst (deal_n 52 new_Deck) = rev construction_order"
    using deal_n_dealt [of 52 new_Deck]
    by (simp add: new_Deck_cards length_construction_order)
  have count: "num_cards (snd (deal_n k new_Deck)) = 52 - k" for k
    by (simp add: num_cards_def deal_n_cards new_Deck_cards length_construction_order)
  have "fst (deal_card (snd (deal_n k new_Deck))) \<noteq> None" if "k < 52" for k
  proof -
    let ?cards = "m_cards (snd (deal_n k new_Deck))"
    have "length ?cards = 52 - k"
      using count [of k] by (simp add: num_cards_def)
    with that have ne: "?cards \<noteq> []"
      by auto
    then have "last ?cards \<in> set ?cards"
      by (rule last_in_set)
    moreover have "set ?cards \<subseteq> set construction_order"
      unfolding deal_n_cards new_Deck_cards by (rule set_take_subset)
    ultimately have "last ?cards \<in> set construction_order"
      by blast
    with construction_order_no_null have "last ?cards \<noteq> None"
      by metis
    with ne show ?thesis
      by (simp add: deal_card_result)
  qed
  moreover have "fst (deal_card (snd (deal_n 52 new_Deck))) = None"
    by (simp add: deal_card_result deal_n_cards new_Deck_cards length_construction_order)
  moreover have "num_cards (snd (deal_n (Suc k) new_Deck)) + 1 =
      num_cards (snd (deal_n k new_Deck))" if "k < 52" for k
    using that unfolding count by simp
  ultimately show ?thesis
    using dealt count
    by (simp add: length_construction_order distinct_construction_order
        construction_order_no_null del: deal_n.simps)
qed

theorem deal_fresh_deck_witness:
  "(3 :: nat) < 52
   \<and> fst (deal_card (snd (deal_n 3 new_Deck))) = Some (new_Card Spade Ten)
   \<and> num_cards (snd (deal_n (Suc 3) new_Deck)) + 1 = num_cards (snd (deal_n 3 new_Deck))
   \<and> num_cards (snd (deal_n 3 new_Deck)) = 49"
proof -
  have "fst (deal_card (snd (deal_n 3 new_Deck))) = Some (new_Card Spade Ten)"
    by (simp add: eval_nat_numeral deal_card_def new_Deck_def Suits_def Values_def Let_def)
  moreover have "num_cards (snd (deal_n 3 new_Deck)) = 49"
    by (simp add: eval_nat_numeral deal_card_def new_Deck_def Suits_def Values_def Let_def
        num_cards_def)
  ultimately show ?thesis
    using deal_fresh_deck by simp
qed

text \<open>C5: on a deck reached from construction by any calls, \<^verbatim>\<open>deal_card\<close> on an empty live
  vector returns the null handle and leaves the deck as it is, and \<^verbatim>\<open>deal_card\<close> returns
  null exactly when the live vector is empty.\<close>

theorem deal_card_absent_iff_empty:
  assumes "run cs (new_Deck, rnd) = Inr (d, rnd')"
  shows "(m_cards d = [] \<longrightarrow> deal_card d = (None, d))
    \<and> (fst (deal_card d) = None \<longleftrightarrow> m_cards d = [])"
proof -
  from deck_inv_new assms have "deck_inv d"
    by (rule deck_inv_run)
  then have no_null: "None \<notin> set (m_cards d)"
    by (rule deck_inv_no_null)
  have "last (m_cards d) \<noteq> None" if "m_cards d \<noteq> []"
    using last_in_set [OF that] no_null by metis
  then show ?thesis
    by (auto simp: deal_card_result deal_card_empty)
qed

theorem deal_card_absent_iff_empty_witness:
  "run (replicate 52 Deal_Card) (new_Deck, sconst 0) = Inr (snd (deal_n 52 new_Deck), sconst 0)
   \<and> m_cards (snd (deal_n 52 new_Deck)) = []
   \<and> deal_card (snd (deal_n 52 new_Deck)) = (None, snd (deal_n 52 new_Deck))
   \<and> run [Deal_Card] (new_Deck, sconst 0) = Inr (snd (deal_card new_Deck), sconst 0)
   \<and> m_cards (snd (deal_card new_Deck)) \<noteq> []
   \<and> fst (deal_card (snd (deal_card new_Deck))) = Some (new_Card Spade Queen)"
proof -
  have run52: "run (replicate 52 Deal_Card) (new_Deck, sconst 0) =
      Inr (snd (deal_n 52 new_Deck), sconst 0)"
    by (rule run_deals)
  have empty: "m_cards (snd (deal_n 52 new_Deck)) = []"
    by (simp add: deal_n_cards new_Deck_cards length_construction_order)
  have run1: "run [Deal_Card] (new_Deck, sconst 0) = Inr (snd (deal_card new_Deck), sconst 0)"
    by simp
  have dealt: "fst (deal_card (snd (deal_card new_Deck))) = Some (new_Card Spade Queen)"
    by (simp add: deal_card_def new_Deck_def Suits_def Values_def Let_def)
  show ?thesis
    using deal_card_absent_iff_empty [OF run52] deal_card_absent_iff_empty [OF run1]
      run52 empty run1 dealt
    by simp
qed

text \<open>C8: after any sequence of \<^verbatim>\<open>shuffle\<close>, \<^verbatim>\<open>deal_card\<close> and \<^verbatim>\<open>reset\<close> calls on a
  fresh deck, the live vector has no duplicates, holds only cards of the original vector and
  at most 52 of them, and the original vector is the one built at construction.\<close>

theorem live_subset_of_original:
  assumes "run cs (new_Deck, rnd) = Inr (d, rnd')"
  shows "distinct (m_cards d)
    \<and> set (m_cards d) \<subseteq> set (m_original_cards d)
    \<and> length (m_cards d) \<le> 52
    \<and> m_original_cards d = m_original_cards new_Deck
    \<and> m_original_cards d = construction_order"
proof -
  from deck_inv_new assms have inv: "deck_inv d"
    by (rule deck_inv_run)
  then have "length (m_cards d) \<le> 52"
    by (rule deck_inv_size)
  with inv show ?thesis
    by (simp add: deck_inv_def new_Deck_original)
qed

theorem live_subset_of_original_witness:
  "run (replicate 50 Deal_Card @ [Shuffle, Deal_Card]) (new_Deck, sconst 4) =
     Inr (\<lparr>m_cards = [Some (new_Card Club Two)], m_original_cards = construction_order\<rparr>,
          sconst 4)
   \<and> distinct [Some (new_Card Club Two)]
   \<and> set [Some (new_Card Club Two)] \<subseteq> set construction_order
   \<and> length [Some (new_Card Club Two)] \<le> 52
   \<and> construction_order = m_original_cards new_Deck"
  using live_subset_of_original [OF run_example] run_example by simp

text \<open>C2, amended: after any sequence of calls on a fresh deck, \<^verbatim>\<open>reset\<close> brings
  \<^verbatim>\<open>num_cards\<close> back to 52, and the next 52 calls of \<^verbatim>\<open>deal_card\<close> return the construction
  order from its last card to its first, as 52 calls on a fresh deck do; the call after
  them returns null.\<close>

theorem reset_then_deal_reverse_order:
  assumes "run cs (new_Deck, rnd) = Inr (d, rnd')"
  shows "num_cards (reset d) = 52
    \<and> fst (deal_n 52 (reset d)) = rev construction_order
    \<and> fst (deal_n 52 (reset d)) = fst (deal_n 52 new_Deck)
    \<and> fst (deal_card (snd (deal_n 52 (reset d)))) = None"
proof -
  from deck_inv_new assms have "deck_inv d"
    by (rule deck_inv_run)
  then have cards: "m_cards (reset d) = construction_order"
    by (simp add: deck_inv_def reset_def)
  then have "fst (deal_n 52 (reset d)) = rev construction_order"
    using deal_n_dealt [of 52 "reset d"] by (simp add: length_construction_order)
  moreover have "fst (deal_n 52 new_Deck) = rev construction_order"
    using deal_n_dealt [of 52 new_Deck] by (simp add: new_Deck_cards length_construction_order)
  moreover have "fst (deal_card (snd (deal_n 52 (reset d)))) = None"
    by (simp add: deal_card_result deal_n_cards cards length_construction_order)
  ultimately show ?thesis
    using cards by (simp add: num_cards_def length_construction_order)
qed

theorem reset_then_deal_reverse_order_witness:
  "run (replicate 50 Deal_Card @ [Shuffle, Deal_Card]) (new_Deck, sconst 4) =
     Inr (\<lparr>m_cards = [Some (new_Card Club Two)], m_original_cards = construction_order\<rparr>,
          sconst 4)
   \<and> num_cards (reset \<lparr>m_cards = [Some (new_Card Club Two)],
                         m_original_cards = construction_order\<rparr>) = 52
   \<and> fst (deal_n 52 (reset \<lparr>m_cards = [Some (new_Card Club Two)],
                               m_original_cards = construction_order\<rparr>))
       = rev construction_order"
  using reset_then_deal_reverse_order [OF run_example] run_example by simp

text \<open>C2 as stated fails: the first card dealt after \<^verbatim>\<open>reset\<close> is the King of Spades,
  the last card of the construction order, whose first card is the Ace of Clubs.\<close>

theorem deal_after_reset_not_construction_order:
  "fst (deal_card (reset new_Deck)) = Some (new_Card Spade King)
   \<and> hd construction_order = Some (new_Card Club Ace)
   \<and> fst (deal_card (reset new_Deck)) \<noteq> hd construction_order
   \<and> fst (deal_n 52 (reset new_Deck)) \<noteq> construction_order"
proof -
  have first: "fst (deal_card (reset new_Deck)) = Some (new_Card Spade King)"
    by (simp add: deal_card_def reset_def new_Deck_def Suits_def Values_def Let_def)
  have hd: "hd construction_order = Some (new_Card Club Ace)"
    by (simp add: construction_order_def Suits_def Values_def)
  have "hd (fst (deal_n 52 (reset new_Deck))) = fst (deal_card (reset new_Deck))"
    by (simp add: eval_nat_numeral split: prod.splits)
  with first hd have "fst (deal_n 52 (reset new_Deck)) \<noteq> construction_order"
    by (auto simp: new_Card_def)
  with first hd show ?thesis
    by (simp add: new_Card_def)
qed

section \<open>The claims about shuffling\<close>

text \<open>Whenever \<^verbatim>\<open>shuffle\<close> returns, the live vector holds the same cards with the same
  multiplicities and \<^verbatim>\<open>num_cards\<close> is unchanged; and it returns on every non-empty live
  vector of at most \<open>2^31\<close> cards. The empty live vector is the case left open here.\<close>

theorem shuffle_permutes_live:
  "(shuffle d rnd = Inr (d', rnd') \<longrightarrow>
      mset (m_cards d') = mset (m_cards d) \<and> num_cards d' = num_cards d)
   \<and> (m_cards d \<noteq> [] \<and> length (m_cards d) \<le> 2 ^ 31 \<longrightarrow>
        (\<exists>d'' rnd''. shuffle d rnd = Inr (d'', rnd'')))"
proof -
  have "num_cards d' = num_cards d" if "mset (m_cards d') = mset (m_cards d)"
    using mset_eq_length [OF that] by (simp add: num_cards_def)
  then show ?thesis
    using shuffle_mset(1) [of d rnd d' rnd'] shuffle_total [of d rnd] by blast
qed

lemma shuffle_three:
  "shuffle \<lparr>m_cards = [Some (new_Card Club Ace), Some (new_Card Heart Ten),
                        Some (new_Card Spade King)],
            m_original_cards = construction_order\<rparr> (4 ## 3 ## sconst 0) =
     Inr (\<lparr>m_cards = [Some (new_Card Club Ace), Some (new_Card Spade King),
                       Some (new_Card Heart Ten)],
           m_original_cards = construction_order\<rparr>, sconst 0)"
  by (simp add: shuffle_def shuffle_loop.simps random_index_def iter_swap_def)

theorem shuffle_permutes_live_witness:
  "shuffle \<lparr>m_cards = [Some (new_Card Club Ace), Some (new_Card Heart Ten),
                        Some (new_Card Spade King)],
            m_original_cards = construction_order\<rparr> (4 ## 3 ## sconst 0) =
     Inr (\<lparr>m_cards = [Some (new_Card Club Ace), Some (new_Card Spade King),
                       Some (new_Card Heart Ten)],
           m_original_cards = construction_order\<rparr>, sconst 0)
   \<and> mset [Some (new_Card Club Ace), Some (new_Card Spade King), Some (new_Card Heart Ten)]
     = mset [Some (new_Card Club Ace), Some (new_Card Heart Ten), Some (new_Card Spade King)]
   \<and> num_cards \<lparr>m_cards = [Some (new_Card Club Ace), Some (new_Card Spade King),
                             Some (new_Card Heart Ten)],
                  m_original_cards = construction_order\<rparr> = 3
   \<and> [Some (new_Card Club Ace), Some (new_Card Heart Ten), Some (new_Card Spade King)] \<noteq> []
   \<and> length [Some (new_Card Club Ace), Some (new_Card Heart Ten), Some (new_Card Spade King)]
       \<le> 2 ^ 31"
  using shuffle_three
    shuffle_permutes_live [of
      "\<lparr>m_cards = [Some (new_Card Club Ace), Some (new_Card Heart Ten),
                    Some (new_Card Spade King)], m_original_cards = construction_order\<rparr>"
      "4 ## 3 ## sconst 0"
      "\<lparr>m_cards = [Some (new_Card Club Ace), Some (new_Card Spade King),
                    Some (new_Card Heart Ten)], m_original_cards = construction_order\<rparr>"
      "sconst 0"]
  by (simp add: num_cards_def)

text \<open>C3 fails on the exhausted deck, a state every deck reaches by 52 calls of
  \<^verbatim>\<open>deal_card\<close>: there \<^verbatim>\<open>shuffle\<close> does not return a deck with the same (empty) live vector
  and the same \<^verbatim>\<open>num_cards\<close>; it returns no deck at all, because it stops in a remainder by
  zero.\<close>

theorem shuffle_exhausted_deck_no_result:
  "m_cards (snd (deal_n 52 new_Deck)) = []
   \<and> num_cards (snd (deal_n 52 new_Deck)) = 0
   \<and> shuffle (snd (deal_n 52 new_Deck)) rnd = Inl Modulo_By_Zero
   \<and> \<not> (\<exists>d' rnd'. shuffle (snd (deal_n 52 new_Deck)) rnd = Inr (d', rnd'))"
proof -
  have empty: "m_cards (snd (deal_n 52 new_Deck)) = []"
    by (simp add: deal_n_cards new_Deck_cards length_construction_order)
  then have "shuffle (snd (deal_n 52 new_Deck)) rnd = Inl Modulo_By_Zero"
    by (rule shuffle_empty)
  with empty show ?thesis
    by (simp add: num_cards_def)
qed

text \<open>On a deck reached from construction that still holds a card, \<^verbatim>\<open>shuffle\<close> returns:
  every index it uses is inside the live vector and no divisor is zero.\<close>

theorem shuffle_returns_on_nonempty:
  assumes "run cs (new_Deck, rnd) = Inr (d, rnd')" and "m_cards d \<noteq> []"
  shows "\<exists>d' rnd''. shuffle d rnd' = Inr (d', rnd'')"
proof -
  from deck_inv_new assms(1) have "deck_inv d"
    by (rule deck_inv_run)
  then have "length (m_cards d) \<le> 52"
    by (rule deck_inv_size)
  then have "length (m_cards d) \<le> 2 ^ 31"
    by simp
  with assms(2) show ?thesis
    by (rule shuffle_total)
qed

theorem shuffle_returns_on_nonempty_witness:
  "run (replicate 50 Deal_Card) (new_Deck, sconst 4) =
     Inr (\<lparr>m_cards = [Some (new_Card Club Ace), Some (new_Card Club Two)],
           m_original_cards = construction_order\<rparr>, sconst 4)
   \<and> [Some (new_Card Club Ace), Some (new_Card Club Two)] \<noteq> []
   \<and> shuffle \<lparr>m_cards = [Some (new_Card Club Ace), Some (new_Card Club Two)],
               m_original_cards = construction_order\<rparr> (sconst 4) =
       Inr (\<lparr>m_cards = [Some (new_Card Club Two), Some (new_Card Club Ace)],
             m_original_cards = construction_order\<rparr>, sconst 4)"
proof -
  have r: "run (replicate 50 Deal_Card) (new_Deck, sconst 4) =
     Inr (\<lparr>m_cards = [Some (new_Card Club Ace), Some (new_Card Club Two)],
           m_original_cards = construction_order\<rparr>, sconst 4)"
    by (simp add: run_deals two_left)
  from shuffle_returns_on_nonempty [OF r] r show ?thesis
    by (simp add: shuffle_two_left)
qed

text \<open>C6 fails on the exhausted deck: after 52 calls of \<^verbatim>\<open>deal_card\<close> the live vector is
  empty, \<^verbatim>\<open>m_cards.size() - 1\<close> wraps around to \<open>2^64 - 1\<close>, the loop is entered and
  \<^verbatim>\<open>rand() % (i + 1)\<close> is a remainder by zero.\<close>

theorem shuffle_exhausted_deck:
  "run (replicate 52 Deal_Card) (new_Deck, rnd) = Inr (snd (deal_n 52 new_Deck), rnd)
   \<and> num_cards (snd (deal_n 52 new_Deck)) = 0
   \<and> shuffle (snd (deal_n 52 new_Deck)) rnd = Inl Modulo_By_Zero
   \<and> run (replicate 52 Deal_Card @ [Shuffle]) (new_Deck, rnd) = Inl Modulo_By_Zero"
proof -
  have empty: "m_cards (snd (deal_n 52 new_Deck)) = []"
    by (simp add: deal_n_cards new_Deck_cards length_construction_order)
  then have "shuffle (snd (deal_n 52 new_Deck)) rnd = Inl Modulo_By_Zero"
    by (rule shuffle_empty)
  with empty show ?thesis
    by (simp add: run_append run_deals num_cards_def)
qed

text \<open>On a non-empty live vector (of at most \<open>2^31\<close> cards, with the results of
  \<^verbatim>\<open>rand()\<close> in \<open>[0, RAND_MAX]\<close>) \<^verbatim>\<open>shuffle\<close> returns, and what it leaves is the
  Fisher-Yates loop of the specification: for \<open>i\<close> from the last index down to 1, \<open>j\<close> is the
  next result of \<^verbatim>\<open>rand()\<close> modulo \<open>i + 1\<close>, in \<open>[0, i]\<close>, the elements at \<open>i\<close> and \<open>j\<close> are
  swapped, and nothing else of the deck changes. The index \<open>j\<close> is drawn by
  \<open>(RAND_MAX - j) div (i + 1) + 1\<close> of the \<open>RAND_MAX + 1\<close> results of \<^verbatim>\<open>rand()\<close>.\<close>

theorem shuffle_fisher_yates_loop:
  assumes "m_cards d \<noteq> []" and "length (m_cards d) \<le> 2 ^ 31"
    and "rand_max \<le> 2147483647" and "\<forall>k. 0 \<le> rnd !! k \<and> rnd !! k \<le> rand_max"
  shows "shuffle d rnd =
      Inr (d\<lparr>m_cards := fisher_yates (length (m_cards d) - 1) (m_cards d) rnd\<rparr>,
           sdrop (length (m_cards d) - 1) rnd)
    \<and> (\<forall>i j. 0 < i \<and> i < length (m_cards d) \<and> j \<le> i \<and> int j \<le> rand_max \<longrightarrow>
          draws_of rand_max (of_nat i) (int j) =
            nat ((rand_max - int j) div (int i + 1) + 1))"
proof
  from assms(3,4) have "\<forall>k. 0 \<le> rnd !! k \<and> rnd !! k \<le> 2147483647"
    by (meson order_trans)
  with assms(1,2) show "shuffle d rnd =
      Inr (d\<lparr>m_cards := fisher_yates (length (m_cards d) - 1) (m_cards d) rnd\<rparr>,
           sdrop (length (m_cards d) - 1) rnd)"
    by (rule shuffle_fisher_yates)
next
  show "\<forall>i j. 0 < i \<and> i < length (m_cards d) \<and> j \<le> i \<and> int j \<le> rand_max \<longrightarrow>
          draws_of rand_max (of_nat i) (int j) =
            nat ((rand_max - int j) div (int i + 1) + 1)"
  proof (intro allI impI)
    fix i j :: nat
    assume h: "0 < i \<and> i < length (m_cards d) \<and> j \<le> i \<and> int j \<le> rand_max"
    with assms(2) have small: "i < 2 ^ 31"
      by simp
    then have "i < 2 ^ 64"
      by (rule less_trans) simp
    then have idx: "unat (of_nat i :: 64 word) = i"
      by (simp add: unat_of_nat)
    have "draws_of rand_max (of_nat i) (int j) =
        nat ((rand_max - int j) div (int (unat (of_nat i :: 64 word)) + 1) + 1)"
      using small h assms(3) by (intro draws_of_count) (simp_all only: idx, simp_all)
    then show "draws_of rand_max (of_nat i) (int j) =
        nat ((rand_max - int j) div (int i + 1) + 1)"
      by (simp only: idx)
  qed
qed

lemma shuffle_three_const:
  "shuffle \<lparr>m_cards = [Some (new_Card Club Ace), Some (new_Card Heart Ten),
                        Some (new_Card Spade King)],
            m_original_cards = construction_order\<rparr> (sconst 4) =
     Inr (\<lparr>m_cards = [Some (new_Card Spade King), Some (new_Card Club Ace),
                       Some (new_Card Heart Ten)],
           m_original_cards = construction_order\<rparr>, sconst 4)"
  by (simp add: shuffle_def shuffle_loop.simps random_index_def iter_swap_def)

theorem shuffle_fisher_yates_loop_witness:
  "[Some (new_Card Club Ace), Some (new_Card Heart Ten), Some (new_Card Spade King)] \<noteq> []
   \<and> length [Some (new_Card Club Ace), Some (new_Card Heart Ten), Some (new_Card Spade King)]
       \<le> 2 ^ 31
   \<and> (\<forall>k. (0 :: int) \<le> sconst 4 !! k \<and> sconst 4 !! k \<le> (2147483647 :: int))
   \<and> shuffle \<lparr>m_cards = [Some (new_Card Club Ace), Some (new_Card Heart Ten),
                          Some (new_Card Spade King)],
              m_original_cards = construction_order\<rparr> (sconst 4) =
       Inr (\<lparr>m_cards = [Some (new_Card Spade King), Some (new_Card Club Ace),
                         Some (new_Card Heart Ten)],
             m_original_cards = construction_order\<rparr>, sconst 4)
   \<and> fisher_yates 2 [Some (new_Card Club Ace), Some (new_Card Heart Ten),
                      Some (new_Card Spade King)] (sconst 4) =
       [Some (new_Card Spade King), Some (new_Card Club Ace), Some (new_Card Heart Ten)]
   \<and> (0 :: nat) < 2
   \<and> 2 < length [Some (new_Card Club Ace), Some (new_Card Heart Ten),
                    Some (new_Card Spade King)]
   \<and> (1 :: nat) \<le> 2 \<and> int 1 \<le> 2147483647
   \<and> draws_of 2147483647 2 1 = 715827883"
proof -
  let ?d = "\<lparr>m_cards = [Some (new_Card Club Ace), Some (new_Card Heart Ten),
                         Some (new_Card Spade King)],
              m_original_cards = construction_order\<rparr>"
  have range: "\<forall>k. (0 :: int) \<le> sconst 4 !! k \<and> sconst 4 !! k \<le> (2147483647 :: int)"
    by simp
  have "m_cards ?d \<noteq> []" and "length (m_cards ?d) \<le> 2 ^ 31"
    and "(2147483647 :: int) \<le> 2147483647"
    by simp_all
  from shuffle_fisher_yates_loop [OF this range]
  have run: "shuffle ?d (sconst 4) =
      Inr (?d\<lparr>m_cards := fisher_yates (length (m_cards ?d) - 1) (m_cards ?d) (sconst 4)\<rparr>,
           sdrop (length (m_cards ?d) - 1) (sconst 4))"
    and draws: "\<forall>i j. 0 < i \<and> i < length (m_cards ?d) \<and> j \<le> i \<and> int j \<le> 2147483647 \<longrightarrow>
          draws_of 2147483647 (of_nat i) (int j) =
            nat ((2147483647 - int j) div (int i + 1) + 1)"
    by blast+
  from draws have "0 < (2 :: nat) \<and> 2 < length (m_cards ?d) \<and> (1 :: nat) \<le> 2
      \<and> int 1 \<le> 2147483647 \<longrightarrow>
      draws_of 2147483647 (of_nat 2) (int 1) = nat ((2147483647 - int 1) div (int 2 + 1) + 1)"
    by blast
  then have d1: "draws_of 2147483647 2 1 = 715827883"
    by simp
  have len: "length (m_cards ?d) - 1 = 2"
    by simp
  from run have fy: "fisher_yates 2 [Some (new_Card Club Ace), Some (new_Card Heart Ten),
      Some (new_Card Spade King)] (sconst 4) =
       [Some (new_Card Spade King), Some (new_Card Club Ace), Some (new_Card Heart Ten)]"
    unfolding len by (simp add: shuffle_three_const del: fisher_yates.simps)
  show ?thesis
    using range d1 fy shuffle_three_const by simp
qed

text \<open>C7 fails on the code in two places. With \<^verbatim>\<open>RAND_MAX\<close> = 2147483647 and every result
  of \<^verbatim>\<open>rand()\<close> equally likely, the draw at \<open>i = 2\<close> is not uniform: 715827883 results give
  \<open>j = 0\<close> and 715827882 give \<open>j = 2\<close>, against the comment in \<^verbatim>\<open>Deck::shuffle\<close> that every
  card has an equal chance. And on the empty live vector of an exhausted deck the loop is
  not the empty loop of the specification: it stops in a remainder by zero.\<close>

theorem shuffle_draw_not_uniform:
  "draws_of 2147483647 2 0 = 715827883
   \<and> draws_of 2147483647 2 2 = 715827882
   \<and> draws_of 2147483647 2 0 \<noteq> draws_of 2147483647 2 2
   \<and> shuffle (snd (deal_n 52 new_Deck)) (sconst 0) = Inl Modulo_By_Zero"
proof -
  have "m_cards (snd (deal_n 52 new_Deck)) = []"
    by (simp add: deal_n_cards new_Deck_cards length_construction_order)
  then have "shuffle (snd (deal_n 52 new_Deck)) (sconst 0) = Inl Modulo_By_Zero"
    by (rule shuffle_empty)
  then show ?thesis
    by (simp add: draws_of_count)
qed

end
